theory Spec2Isabelle
  imports Complex_Main "HOL-Library.Log_Nat" "HOL-Library.Word" "HOL-Library.Stream"
begin

unbundle bit_operations_syntax

section \<open>Double-precision arithmetic\<close>

text \<open>
  \<^verbatim>\<open>get_ascii_char_and_color\<close> computes the grayscale intensity of a pixel with Python
  float literals and numpy \<^verbatim>\<open>uint8\<close> scalars, so every product, sum and quotient is an IEEE
  754 binary64 operation: the exact result rounded to the nearest value with a 53-bit
  significand, ties to the even significand. A finite double is a rational number, and
  the operations are modelled on \<^typ>\<open>rat\<close> with the rounding written out. Every value that
  occurs in the program is either zero or of magnitude between \<open>0.0722 / 255\<close> and \<open>255\<close>,
  far inside the normal range of binary64, so neither overflow nor subnormal numbers are
  modelled.
\<close>

text \<open>The binary exponent of a positive rational: the \<open>k\<close> with \<open>2^k \<le> x < 2^(k+1)\<close>.\<close>

definition ilog2 :: "rat \<Rightarrow> int" where
  "ilog2 x = (case quotient_of x of (p, q) \<Rightarrow>
     (let k = bitlen p - bitlen q in if 2 powi k \<le> x then k else k - 1))"

text \<open>Rounding to the nearest integer, a tie going to the even neighbour.\<close>

definition round_half_even :: "rat \<Rightarrow> int" where
  "round_half_even m = (let f = \<lfloor>m\<rfloor>; d = m - of_int f in
      if d < 1/2 then f else if 1/2 < d then f + 1 else if even f then f else f + 1)"

text \<open>
  Rounding to binary64: the magnitude is scaled so that its significand lies in
  \<open>[2^52, 2^53)\<close>, the significand is rounded to an integer, and the scale is put back.
\<close>

definition b64_round :: "rat \<Rightarrow> rat" where
  "b64_round x = (if x = 0 then 0 else
     (let e = ilog2 \<bar>x\<bar> - 52 in
        sgn x * of_int (round_half_even (\<bar>x\<bar> / 2 powi e)) * 2 powi e))"

definition fmul :: "rat \<Rightarrow> rat \<Rightarrow> rat" where
  "fmul x y = b64_round (x * y)"

definition fadd :: "rat \<Rightarrow> rat \<Rightarrow> rat" where
  "fadd x y = b64_round (x + y)"

definition fdiv :: "rat \<Rightarrow> rat \<Rightarrow> rat" where
  "fdiv x y = b64_round (x / y)"

text \<open>Python's \<^verbatim>\<open>int(x)\<close> on a float truncates towards zero.\<close>

definition py_int :: "rat \<Rightarrow> int" where
  "py_int x = (if 0 \<le> x then \<lfloor>x\<rfloor> else - \<lfloor>- x\<rfloor>)"

section \<open>The pixel classifier\<close>

type_synonym u8 = "8 word"

type_synonym pixel = "u8 \<times> u8 \<times> u8"

type_synonym cell = "char \<times> int"

text \<open>
  The exceptions the modelled code can raise: \<^verbatim>\<open>IndexError\<close> from indexing the ramp,
  \<^verbatim>\<open>ValueError\<close> from numpy's \<^verbatim>\<open>reshape\<close> (the specification's \<^verbatim>\<open>MalformedFrame\<close>).
\<close>

datatype error = IndexError | ValueError

text \<open>
  Subscripting a Python sequence: an index from \<open>-len\<close> to \<open>-1\<close> addresses the sequence
  from its end, and any other index outside \<open>[0, len)\<close> raises \<^verbatim>\<open>IndexError\<close>.
\<close>

definition py_index :: "'a list \<Rightarrow> int \<Rightarrow> error + 'a" where
  "py_index xs i =
     (if 0 \<le> i \<and> i < int (length xs) then Inr (xs ! nat i)
      else if i < 0 \<and> - int (length xs) \<le> i then Inr (xs ! nat (int (length xs) + i))
      else Inl IndexError)"

definition ascii_chars :: string where
  "ascii_chars = '' .:-=+*%@#''"

text \<open>
  Line 113: \<^verbatim>\<open>0.2126 * pixel[0] + 0.7152 * pixel[1] + 0.0722 * pixel[2]\<close>. The three
  literals are the doubles nearest to the decimal fractions, a \<^verbatim>\<open>uint8\<close> converts to a
  double exactly, and the sum associates to the left.
\<close>

definition intensity :: "pixel \<Rightarrow> rat" where
  "intensity pixel = (case pixel of (r, g, b) \<Rightarrow>
     fadd (fadd (fmul (b64_round (2126 / 10000)) (of_nat (unat r)))
                (fmul (b64_round (7152 / 10000)) (of_nat (unat g))))
          (fmul (b64_round (722 / 10000)) (of_nat (unat b))))"

text \<open>Line 114, the index expression: \<^verbatim>\<open>int((intensity / 255) * (len(ascii_chars) - 1))\<close>.\<close>

definition glyph_index :: "rat \<Rightarrow> int" where
  "glyph_index L = py_int (fmul (fdiv L 255) (of_int (int (length ascii_chars) - 1)))"

text \<open>Lines 117 to 124: the colour starts at 0 and one bit is or-ed in per channel.\<close>

definition color_of :: "pixel \<Rightarrow> int" where
  "color_of pixel = (case pixel of (r, g, b) \<Rightarrow>
     (let color = 0;
          color = (if 128 < r then color OR 1 else color);
          color = (if 128 < g then color OR 2 else color);
          color = (if 128 < b then color OR 4 else color)
      in color))"

definition get_ascii_char_and_color :: "pixel \<Rightarrow> error + cell" where
  "get_ascii_char_and_color pixel =
     (case py_index ascii_chars (glyph_index (intensity pixel)) of
        Inl e \<Rightarrow> Inl e
      | Inr char \<Rightarrow> Inr (char, color_of pixel))"

text \<open>
  The cell that \<^verbatim>\<open>get_ascii_char_and_color\<close> returns when indexing the ramp does not
  raise (it never does, see \<open>classify_total\<close>).
\<close>

definition cell_of :: "pixel \<Rightarrow> cell" where
  "cell_of pixel = (ascii_chars ! nat (glyph_index (intensity pixel)), color_of pixel)"

text \<open>
  The glyph index as the specification words it, in exact arithmetic: the floor of
  \<open>(L / 255) * 9\<close> clamped to \<open>[0, 9]\<close>. It is compared with the code's index below.
\<close>

definition spec_glyph_index :: "pixel \<Rightarrow> int" where
  "spec_glyph_index pixel = (case pixel of (r, g, b) \<Rightarrow>
     (let L = 2126 / 10000 * of_nat (unat r) + 7152 / 10000 * of_nat (unat g)
                + 722 / 10000 * of_nat (unat b) :: rat
      in max 0 (min 9 \<lfloor>L / 255 * 9\<rfloor>)))"

section \<open>Decoding a frame\<close>

text \<open>
  Line 87: \<^verbatim>\<open>np.frombuffer(raw_frame, dtype=np.uint8).reshape(canvas_height, canvas_width, 3)\<close>.
  The buffer is read as a flat array of bytes; \<^verbatim>\<open>reshape\<close> raises \<^verbatim>\<open>ValueError\<close> unless the
  array has exactly \<open>canvas_height * canvas_width * 3\<close> elements, and otherwise cuts it, in
  C order, into groups of three bytes (the pixels) and the pixels into rows of
  \<open>canvas_width\<close>.
\<close>

fun triples :: "u8 list \<Rightarrow> pixel list" where
  "triples (r # g # b # rest) = (r, g, b) # triples rest"
| "triples _ = []"

definition rows_of :: "nat \<Rightarrow> nat \<Rightarrow> pixel list \<Rightarrow> pixel list list" where
  "rows_of canvas_height canvas_width ps =
     map (\<lambda>y. take canvas_width (drop (y * canvas_width) ps)) [0..<canvas_height]"

definition reshape :: "u8 list \<Rightarrow> nat \<Rightarrow> nat \<Rightarrow> error + pixel list list" where
  "reshape raw_frame canvas_height canvas_width =
     (if length raw_frame \<noteq> canvas_height * canvas_width * 3 then Inl ValueError
      else Inr (rows_of canvas_height canvas_width (triples raw_frame)))"

section \<open>The byte source and the display\<close>

text \<open>
  \<^verbatim>\<open>ffmpeg.stdout\<close> is a buffered pipe: \<^verbatim>\<open>read(n)\<close> blocks until \<open>n\<close> bytes have arrived
  or the pipe is closed, so it returns fewer than \<open>n\<close> bytes only at the end of the
  stream, and nothing from then on. A source is therefore either the finite sequence of
  bytes written before the pipe closes, or an endless stream of bytes.
\<close>

datatype source = Closing "u8 list" | Endless "u8 stream"

fun stdout_read :: "nat \<Rightarrow> source \<Rightarrow> u8 list \<times> source" where
  "stdout_read n (Closing bs) = (take n bs, Closing (drop n bs))"
| "stdout_read n (Endless s) = (stake n s, Endless (sdrop n s))"

text \<open>
  The calls the loop makes on its collaborators, in the order it makes them. A
  \<open>Refresh\<close> carries the content of the canvas that the display shows.
\<close>

datatype event =
    Read "u8 list"
  | SetColor int
  | PutChar nat nat char
  | Refresh "cell list list"

text \<open>
  The canvas and the display: the current colour attribute, the grid of cells (a list
  of rows) and the log of calls.
\<close>

record tui =
  attr :: int
  cells :: "cell list list"
  events :: "event list"

definition Canvas :: "nat \<Rightarrow> nat \<Rightarrow> tui" where
  "Canvas canvas_width canvas_height =
     \<lparr>attr = 0, cells = replicate canvas_height (replicate canvas_width (CHR '' '', 0)),
      events = []\<rparr>"

definition log_read :: "u8 list \<Rightarrow> tui \<Rightarrow> tui" where
  "log_read raw_frame st = st\<lparr>events := events st @ [Read raw_frame]\<rparr>"

definition set_color_ansi :: "int \<Rightarrow> tui \<Rightarrow> tui" where
  "set_color_ansi color st = st\<lparr>attr := color, events := events st @ [SetColor color]\<rparr>"

text \<open>A character is written with the current attribute; outside the canvas nothing is written.\<close>

definition put_char :: "nat \<Rightarrow> nat \<Rightarrow> char \<Rightarrow> tui \<Rightarrow> tui" where
  "put_char x y char st =
     st\<lparr>cells := (if y < length (cells st) \<and> x < length (cells st ! y)
                   then (cells st)[y := (cells st ! y)[x := (char, attr st)]]
                   else cells st),
         events := events st @ [PutChar x y char]\<rparr>"

definition refresh :: "tui \<Rightarrow> tui" where
  "refresh st = st\<lparr>events := events st @ [Refresh (cells st)]\<rparr>"

section \<open>The frame loop\<close>

text \<open>Lines 89 to 92: the inner loop over the pixels of row \<open>y\<close>, from column \<open>x\<close> on.\<close>

fun render_row :: "nat \<Rightarrow> nat \<Rightarrow> pixel list \<Rightarrow> tui \<Rightarrow> error option \<times> tui" where
  "render_row y x [] st = (None, st)"
| "render_row y x (pixel # row) st =
     (case get_ascii_char_and_color pixel of
        Inl e \<Rightarrow> (Some e, st)
      | Inr (char, color) \<Rightarrow>
          render_row y (Suc x) row (put_char x y char (set_color_ansi color st)))"

text \<open>Line 88: the outer loop over the rows of the frame, from row \<open>y\<close> on.\<close>

fun render_rows :: "nat \<Rightarrow> pixel list list \<Rightarrow> tui \<Rightarrow> error option \<times> tui" where
  "render_rows y [] st = (None, st)"
| "render_rows y (row # frame) st =
     (case render_row y 0 row st of
        (Some e, st') \<Rightarrow> (Some e, st')
      | (None, st') \<Rightarrow> render_rows (Suc y) frame st')"

text \<open>
  How a run of the loop ends: the \<^verbatim>\<open>break\<close> on an empty read, or an exception that
  leaves the function.
\<close>

datatype outcome = Drained | Failed error

text \<open>
  Lines 80 to 95, the \<^verbatim>\<open>while True\<close> loop of \<^verbatim>\<open>run_xorg_app_in_xephyr\<close>. The loop need not
  end (an endless source keeps it running), so it takes fuel: one unit per iteration, and
  \<open>None\<close> for a loop that is still running when the fuel is spent.
\<close>

fun pump :: "nat \<Rightarrow> nat \<Rightarrow> nat \<Rightarrow> source \<Rightarrow> tui \<Rightarrow> outcome option \<times> tui" where
  "pump 0 canvas_width canvas_height src st = (None, st)"
| "pump (Suc fuel) canvas_width canvas_height src st =
     (case stdout_read (canvas_width * canvas_height * 3) src of
        (raw_frame, src') \<Rightarrow>
          (let st = log_read raw_frame st in
           if raw_frame = [] then (Some Drained, st)
           else
             (case reshape raw_frame canvas_height canvas_width of
                Inl e \<Rightarrow> (Some (Failed e), st)
              | Inr frame \<Rightarrow>
                  (case render_rows 0 frame st of
                     (Some e, st) \<Rightarrow> (Some (Failed e), st)
                   | (None, st) \<Rightarrow> pump fuel canvas_width canvas_height src' (refresh st)))))"

text \<open>One whole iteration of the loop on a chunk that decodes: read, draw, refresh.\<close>

definition show_frame :: "nat \<Rightarrow> nat \<Rightarrow> u8 list \<Rightarrow> tui \<Rightarrow> tui" where
  "show_frame canvas_width canvas_height raw_frame st =
     refresh (snd (render_rows 0 (rows_of canvas_height canvas_width (triples raw_frame))
                     (log_read raw_frame st)))"

section \<open>Reading the log\<close>

text \<open>The frames the display has shown, oldest first.\<close>

fun deliveries :: "event list \<Rightarrow> cell list list list" where
  "deliveries [] = []"
| "deliveries (Refresh g # es) = g # deliveries es"
| "deliveries (e # es) = deliveries es"

text \<open>The calls that drawing a row, and a frame, adds to the log.\<close>

fun row_events :: "nat \<Rightarrow> nat \<Rightarrow> pixel list \<Rightarrow> event list" where
  "row_events y x [] = []"
| "row_events y x (pixel # row) =
     SetColor (snd (cell_of pixel)) # PutChar x y (fst (cell_of pixel)) # row_events y (Suc x) row"

fun frame_events :: "nat \<Rightarrow> pixel list list \<Rightarrow> event list" where
  "frame_events y [] = []"
| "frame_events y (row # frame) = row_events y 0 row @ frame_events (Suc y) frame"

text \<open>
  The discipline of the loop, as an automaton over the log: either no frame is in flight,
  or one is and so many of its cells have been written. Bytes are read only while no frame
  is in flight, cells are written only for the frame in flight, and a refresh is accepted
  only once all \<open>n\<close> cells of the frame have been written.
\<close>

datatype flight = Idle | InFlight nat

fun track :: "nat \<Rightarrow> flight \<Rightarrow> event \<Rightarrow> flight option" where
  "track n Idle (Read raw_frame) = Some (InFlight 0)"
| "track n (InFlight j) (SetColor color) = Some (InFlight j)"
| "track n (InFlight j) (PutChar x y char) = Some (InFlight (Suc j))"
| "track n (InFlight j) (Refresh g) = (if j = n then Some Idle else None)"
| "track n s e = None"

fun ordered :: "nat \<Rightarrow> flight \<Rightarrow> event list \<Rightarrow> flight option" where
  "ordered n s [] = Some s"
| "ordered n s (e # es) = (case track n s e of None \<Rightarrow> None | Some s' \<Rightarrow> ordered n s' es)"

text \<open>A canvas of the given size: so many rows, each of so many cells.\<close>

definition canvas_ok :: "nat \<Rightarrow> nat \<Rightarrow> tui \<Rightarrow> bool" where
  "canvas_ok canvas_width canvas_height st =
     (length (cells st) = canvas_height \<and> list_all (\<lambda>row. length row = canvas_width) (cells st))"

text \<open>A grid of cells is the classification of a grid of pixels, element by element.\<close>

definition classified :: "pixel list list \<Rightarrow> cell list list \<Rightarrow> bool" where
  "classified frame grid =
     list_all2 (list_all2 (\<lambda>pixel c. get_ascii_char_and_color pixel = Inr c)) frame grid"

section \<open>Properties of the rounding\<close>

lemma bitlen_powi_bounds:
  assumes "0 < (p::int)"
  shows "(2::rat) powi (bitlen p - 1) \<le> of_int p" and "of_int p < (2::rat) powi (bitlen p)"
proof -
  have b: "1 \<le> bitlen p"
    using assms bitlen_eq_zero_iff[of p] bitlen_nonneg[of p] by linarith
  from bitlen_bounds[OF assms]
  have lo: "2 ^ nat (bitlen p - 1) \<le> p" and hi: "p < 2 ^ nat (bitlen p)" by auto
  have "(2::rat) powi (bitlen p - 1) = 2 ^ nat (bitlen p - 1)"
    using b by (simp add: power_int_def)
  also have "\<dots> = of_int (2 ^ nat (bitlen p - 1))" by simp
  also have "\<dots> \<le> of_int p" using lo by (simp only: of_int_le_iff)
  finally show "(2::rat) powi (bitlen p - 1) \<le> of_int p" .
  have "of_int p < (of_int (2 ^ nat (bitlen p)) :: rat)"
    using hi by (simp only: of_int_less_iff)
  also have "\<dots> = 2 ^ nat (bitlen p)" by simp
  also have "\<dots> = 2 powi (bitlen p)" using b by (simp add: power_int_def)
  finally show "of_int p < (2::rat) powi (bitlen p)" .
qed

lemma ilog2_bounds:
  assumes "0 < x"
  shows "2 powi (ilog2 x) \<le> x" and "x < 2 powi (ilog2 x + 1)"
proof -
  obtain p q where pq: "quotient_of x = (p, q)" by (cases "quotient_of x")
  have q: "0 < q" by (rule quotient_of_denom_pos[OF pq])
  have x: "x = of_int p / of_int q" by (rule quotient_of_div[OF pq])
  have p: "0 < p" using assms q x by (simp add: zero_less_divide_iff)
  define k where "k = bitlen p - bitlen q"
  have P: "(0::rat) < 2 powi n" for n by simp
  have lo: "2 powi (k - 1) < x"
  proof -
    have "2 powi (k - 1) = (2::rat) powi (bitlen p - 1) / 2 powi (bitlen q)"
      unfolding k_def by (simp add: power_int_diff[symmetric] algebra_simps)
    also have "\<dots> \<le> of_int p / 2 powi bitlen q"
      using bitlen_powi_bounds(1)[OF p] by (simp add: divide_right_mono)
    also have "\<dots> < of_int p / of_int q"
      using bitlen_powi_bounds(2)[OF q] p q by (simp add: divide_strict_left_mono)
    finally show ?thesis using x by simp
  qed
  have hi: "x < 2 powi (k + 1)"
  proof -
    have "x = of_int p / of_int q" by (rule x)
    also have "\<dots> < 2 powi bitlen p / of_int q"
      using bitlen_powi_bounds(2)[OF p] q by (simp add: divide_strict_right_mono)
    also have "\<dots> \<le> 2 powi bitlen p / 2 powi (bitlen q - 1)"
      by (rule frac_le) (use bitlen_powi_bounds(1)[OF q] P in simp_all)
    also have "\<dots> = 2 powi (k + 1)"
      unfolding k_def by (simp add: power_int_diff[symmetric] algebra_simps)
    finally show ?thesis .
  qed
  show "2 powi (ilog2 x) \<le> x"
    unfolding ilog2_def pq using lo by (auto simp: Let_def k_def)
  show "x < 2 powi (ilog2 x + 1)"
    unfolding ilog2_def pq using hi by (auto simp: Let_def k_def)
qed

lemma ilog2_mono:
  assumes "0 < x" "x \<le> y"
  shows "ilog2 x \<le> ilog2 y"
proof (rule ccontr)
  assume "\<not> ilog2 x \<le> ilog2 y"
  then have "ilog2 y + 1 \<le> ilog2 x" by simp
  then have "(2::rat) powi (ilog2 y + 1) \<le> 2 powi (ilog2 x)"
    by (simp add: power_int_increasing)
  also have "\<dots> \<le> x" by (rule ilog2_bounds(1)[OF assms(1)])
  also have "\<dots> \<le> y" by (rule assms(2))
  finally show False using ilog2_bounds(2)[of y] assms by simp
qed

lemma round_half_even_bounds:
  "\<lfloor>m\<rfloor> \<le> round_half_even m" "round_half_even m \<le> \<lfloor>m\<rfloor> + 1"
  by (simp_all add: round_half_even_def Let_def)

lemma round_half_even_mono:
  assumes "a \<le> b"
  shows "round_half_even a \<le> round_half_even b"
proof (cases "\<lfloor>a\<rfloor> = \<lfloor>b\<rfloor>")
  case True
  with assms show ?thesis by (auto simp: round_half_even_def Let_def)
next
  case False
  with assms have "\<lfloor>a\<rfloor> + 1 \<le> \<lfloor>b\<rfloor>" using floor_mono[OF assms] by linarith
  with round_half_even_bounds(2)[of a] round_half_even_bounds(1)[of b]
  show ?thesis by linarith
qed

lemma mantissa_bounds:
  assumes "0 < x"
  shows "2 ^ 52 \<le> x / 2 powi (ilog2 x - 52)" and "x / 2 powi (ilog2 x - 52) < 2 ^ 53"
proof -
  have P: "(0::rat) < 2 powi n" for n by simp
  have e: "(2::rat) powi (ilog2 x - 52) = 2 powi (ilog2 x) / 2 ^ 52"
    by (simp add: power_int_diff)
  have e1: "(2::rat) powi (ilog2 x + 1) = 2 powi (ilog2 x) * 2"
    by (simp add: power_int_add)
  show "2 ^ 52 \<le> x / 2 powi (ilog2 x - 52)"
    using ilog2_bounds(1)[OF assms] P[of "ilog2 x"] unfolding e
    by (simp add: field_simps)
  show "x / 2 powi (ilog2 x - 52) < 2 ^ 53"
    using ilog2_bounds(2)[OF assms] P[of "ilog2 x"] unfolding e e1
    by (simp add: field_simps)
qed

lemma b64_round_pos:
  assumes "0 < x"
  shows "b64_round x = of_int (round_half_even (x / 2 powi (ilog2 x - 52))) * 2 powi (ilog2 x - 52)"
  using assms by (simp add: b64_round_def Let_def)

lemma b64_round_nonneg:
  assumes "0 \<le> x"
  shows "0 \<le> b64_round x"
proof (cases "x = 0")
  case True
  then show ?thesis by (simp add: b64_round_def)
next
  case False
  with assms have x: "0 < x" by simp
  have "0 \<le> \<lfloor>x / 2 powi (ilog2 x - 52)\<rfloor>"
    using mantissa_bounds(1)[OF x] by simp
  with round_half_even_bounds(1)[of "x / 2 powi (ilog2 x - 52)"]
  have "0 \<le> round_half_even (x / 2 powi (ilog2 x - 52))" by linarith
  then show ?thesis unfolding b64_round_pos[OF x] by simp
qed

lemma b64_round_mono:
  assumes "0 \<le> x" "x \<le> y"
  shows "b64_round x \<le> b64_round y"
proof (cases "x = 0")
  case True
  then show ?thesis using b64_round_nonneg[of y] assms by (simp add: b64_round_def)
next
  case False
  with assms have x: "0 < x" and y: "0 < y" by simp_all
  define ex where "ex = ilog2 x - 52"
  define ey where "ey = ilog2 y - 52"
  define mx where "mx = round_half_even (x / 2 powi ex)"
  define my where "my = round_half_even (y / 2 powi ey)"
  have rx: "b64_round x = of_int mx * 2 powi ex"
    unfolding b64_round_pos[OF x] mx_def ex_def ..
  have ry: "b64_round y = of_int my * 2 powi ey"
    unfolding b64_round_pos[OF y] my_def ey_def ..
  have le: "ex \<le> ey" unfolding ex_def ey_def using ilog2_mono[OF x assms(2)] by simp
  have P: "(0::rat) < 2 powi n" for n by simp
  show ?thesis
  proof (cases "ex = ey")
    case True
    have "x / 2 powi ex \<le> y / 2 powi ey"
      unfolding True using assms(2) P[of ey] by (simp add: divide_right_mono)
    then have "mx \<le> my" unfolding mx_def my_def by (rule round_half_even_mono)
    then show ?thesis unfolding rx ry True using P[of ey] by simp
  next
    case False
    with le have lt: "ex + 1 \<le> ey" by simp
    have "x / 2 powi ex < 2 ^ 53" unfolding ex_def by (rule mantissa_bounds(2)[OF x])
    then have "\<lfloor>x / 2 powi ex\<rfloor> < 2 ^ 53" by (simp add: floor_less_iff)
    with round_half_even_bounds(2)[of "x / 2 powi ex"]
    have mxb: "mx \<le> 2 ^ 53" unfolding mx_def by linarith
    have "2 ^ 52 \<le> y / 2 powi ey" unfolding ey_def by (rule mantissa_bounds(1)[OF y])
    then have "2 ^ 52 \<le> \<lfloor>y / 2 powi ey\<rfloor>" by (simp add: le_floor_iff)
    with round_half_even_bounds(1)[of "y / 2 powi ey"]
    have myb: "2 ^ 52 \<le> my" unfolding my_def by linarith
    have "(of_int mx :: rat) \<le> of_int (2 ^ 53)" using mxb by (simp only: of_int_le_iff)
    then have "of_int mx * 2 powi ex \<le> (2 ^ 53 :: rat) * 2 powi ex"
      using P[of ex] by simp
    also have "\<dots> = 2 ^ 52 * 2 powi (ex + 1)" by (simp add: power_int_add)
    also have "\<dots> \<le> 2 ^ 52 * 2 powi ey"
      using lt by (simp add: power_int_increasing)
    also have "\<dots> \<le> of_int my * 2 powi ey"
    proof -
      have "(of_int (2 ^ 52) :: rat) \<le> of_int my" using myb by (simp only: of_int_le_iff)
      then show ?thesis using P[of ey] by simp
    qed
    finally show ?thesis unfolding rx ry .
  qed
qed

lemma ilog2_eqI:
  assumes "2 powi k \<le> x" "x < 2 powi (k + 1)"
  shows "ilog2 x = k"
proof -
  have x: "0 < x" using assms(1) by (rule less_le_trans[rotated]) simp
  have "(2::rat) powi (ilog2 x) < 2 powi (k + 1)"
    using ilog2_bounds(1)[OF x] assms(2) by (rule le_less_trans)
  then have a: "ilog2 x < k + 1"
    using power_int_increasing[of "k + 1" "ilog2 x" "2::rat"] by (cases "ilog2 x < k + 1") auto
  have "(2::rat) powi k < 2 powi (ilog2 x + 1)"
    using assms(1) ilog2_bounds(2)[OF x] by (rule le_less_trans)
  then have b: "k < ilog2 x + 1"
    using power_int_increasing[of "ilog2 x + 1" k "2::rat"] by (cases "k < ilog2 x + 1") auto
  from a b show ?thesis by simp
qed

lemma round_half_even_eqI:
  assumes "\<bar>m - of_int q\<bar> < 1 / 2 \<or> \<bar>m - of_int q\<bar> = 1 / 2 \<and> even q"
  shows "round_half_even m = q"
proof (cases "of_int q \<le> m")
  case True
  with assms have "\<lfloor>m\<rfloor> = q" by (intro floor_unique) auto
  with assms True show ?thesis by (auto simp: round_half_even_def Let_def)
next
  case False
  with assms have "\<lfloor>m\<rfloor> = q - 1" by (intro floor_unique) auto
  with assms False show ?thesis by (auto simp: round_half_even_def Let_def)
qed

lemma b64_round_eqI:
  assumes "2 powi (e + 52) \<le> x" "x < 2 powi (e + 53)"
    and "\<bar>x - of_int q * 2 powi e\<bar> < 2 powi e / 2
         \<or> \<bar>x - of_int q * 2 powi e\<bar> = 2 powi e / 2 \<and> even q"
  shows "b64_round x = of_int q * 2 powi e"
proof -
  have P: "(0::rat) < 2 powi n" for n by simp
  have x: "0 < x" using assms(1) by (rule less_le_trans[rotated]) simp
  have "ilog2 x = e + 52"
    using assms(1,2) by (intro ilog2_eqI) (simp_all add: add.commute add.left_commute)
  then have e: "ilog2 x - 52 = e" by simp
  have d: "\<bar>x / 2 powi e - of_int q\<bar> = \<bar>x - of_int q * 2 powi e\<bar> / 2 powi e"
    using P[of e] by (simp add: field_simps abs_divide flip: abs_mult)
  have "\<bar>x / 2 powi e - of_int q\<bar> < 1 / 2
        \<or> \<bar>x / 2 powi e - of_int q\<bar> = 1 / 2 \<and> even q"
    using assms(3)
  proof
    assume "\<bar>x - of_int q * 2 powi e\<bar> < 2 powi e / 2"
    then have "\<bar>x - of_int q * 2 powi e\<bar> / 2 powi e < (2 powi e / 2) / 2 powi e"
      using P[of e] by (simp add: divide_strict_right_mono)
    then show ?thesis unfolding d by simp
  next
    assume "\<bar>x - of_int q * 2 powi e\<bar> = 2 powi e / 2 \<and> even q"
    then show ?thesis unfolding d by simp
  qed
  then have "round_half_even (x / 2 powi e) = q" by (rule round_half_even_eqI)
  then show ?thesis unfolding b64_round_pos[OF x] e by simp
qed

text \<open>
  A rounding is checked, not computed: given the significand \<open>q\<close> and the exponent \<open>e\<close> of
  the result, three comparisons of numerals certify it.
\<close>

lemma b64_round_cert:
  assumes "v = of_int q * 2 powi e" "2 powi (e + 52) \<le> x" "x < 2 powi (e + 53)"
    and "\<bar>x - v\<bar> < 2 powi e / 2 \<or> \<bar>x - v\<bar> = 2 powi e / 2 \<and> even q"
  shows "b64_round x = v"
  unfolding assms(1) using assms(2-) unfolding assms(1) by (rule b64_round_eqI)

section \<open>The intensity of two pixels, step by step\<close>

lemma literal_1: "b64_round (2126 / 10000) = 1914930561557935 / 2 ^ 53"
  by (rule b64_round_cert[where q = 7659722246231740 and e = "-55"]) (simp_all add: power_int_minus)

lemma literal_2: "b64_round (7152 / 10000) = 6441948906990757 / 2 ^ 53"
  by (rule b64_round_cert[where q = 6441948906990757 and e = "-53"]) (simp_all add: power_int_minus)

lemma literal_3: "b64_round (722 / 10000) = 5202558289538397 / 2 ^ 56"
  by (rule b64_round_cert[where q = 5202558289538397 and e = "-56"]) (simp_all add: power_int_minus)

lemma intensity_white: "intensity (255, 255, 255) = 8972014882652159 / 2 ^ 45"
proof -
  have p1: "fmul (b64_round (2126 / 10000)) (of_nat (unat (255 :: u8))) = 7629801456207397 / 2 ^ 47"
    unfolding fmul_def literal_1
    by (rule b64_round_cert[where q = 7629801456207397 and e = "-47"]) (simp_all add: power_int_minus)
  have p2: "fmul (b64_round (7152 / 10000)) (of_nat (unat (255 :: u8))) = 802098130509103 / 2 ^ 42"
    unfolding fmul_def literal_2
    by (rule b64_round_cert[where q = 6416785044072824 and e = "-45"]) (simp_all add: power_int_minus)
  have p3: "fmul (b64_round (722 / 10000)) (of_nat (unat (255 :: u8))) = 323889737263743 / 2 ^ 44"
    unfolding fmul_def literal_3
    by (rule b64_round_cert[where q = 5182235796219888 and e = "-48"]) (simp_all add: power_int_minus)
  have s1: "fadd (7629801456207397 / 2 ^ 47) (802098130509103 / 2 ^ 42) = 8324235408124673 / 2 ^ 45"
    unfolding fadd_def
    by (rule b64_round_cert[where q = 8324235408124673 and e = "-45"]) (simp_all add: power_int_minus)
  have s2: "fadd (8324235408124673 / 2 ^ 45) (323889737263743 / 2 ^ 44) = 8972014882652159 / 2 ^ 45"
    unfolding fadd_def
    by (rule b64_round_cert[where q = 8972014882652159 and e = "-45"]) (simp_all add: power_int_minus)
  show ?thesis unfolding intensity_def prod.case p1 p2 p3 s1 s2 ..
qed

lemma glyph_index_white: "glyph_index (intensity (255, 255, 255)) = 8"
proof -
  have d: "fdiv (8972014882652159 / 2 ^ 45) 255 = 9007199254740991 / 2 ^ 53"
    unfolding fdiv_def
    by (rule b64_round_cert[where q = 9007199254740991 and e = "-53"]) (simp_all add: power_int_minus)
  have m: "fmul (9007199254740991 / 2 ^ 53) (of_int (int (length ascii_chars) - 1)) = 5066549580791807 / 2 ^ 49"
    unfolding fmul_def
    by (rule b64_round_cert[where q = 5066549580791807 and e = "-49"]) (simp_all add: power_int_minus ascii_chars_def)
  have f: "py_int (5066549580791807 / 2 ^ 49) = 8"
    by (simp add: py_int_def floor_eq_iff)
  show ?thesis unfolding glyph_index_def intensity_white d m f ..
qed

lemma intensity_near_black: "intensity (10, 10, 10) = 5629499534213119 / 2 ^ 49"
proof -
  have p1: "fmul (b64_round (2126 / 10000)) (of_nat (unat (10 :: u8))) = 2393663201947419 / 2 ^ 50"
    unfolding fmul_def literal_1
    by (rule b64_round_cert[where q = 4787326403894838 and e = "-51"]) (simp_all add: power_int_minus)
  have p2: "fmul (b64_round (7152 / 10000)) (of_nat (unat (10 :: u8))) = 4026218066869223 / 2 ^ 49"
    unfolding fmul_def literal_2
    by (rule b64_round_cert[where q = 8052436133738446 and e = "-50"]) (simp_all add: power_int_minus)
  have p3: "fmul (b64_round (722 / 10000)) (of_nat (unat (10 :: u8))) = 1625799465480749 / 2 ^ 51"
    unfolding fmul_def literal_3
    by (rule b64_round_cert[where q = 6503197861922996 and e = "-53"]) (simp_all add: power_int_minus)
  have s1: "fadd (2393663201947419 / 2 ^ 50) (4026218066869223 / 2 ^ 49) = 1305762416960733 / 2 ^ 47"
    unfolding fadd_def
    by (rule b64_round_cert[where q = 5223049667842932 and e = "-49"]) (simp_all add: power_int_minus)
  have s2: "fadd (1305762416960733 / 2 ^ 47) (1625799465480749 / 2 ^ 51) = 5629499534213119 / 2 ^ 49"
    unfolding fadd_def
    by (rule b64_round_cert[where q = 5629499534213119 and e = "-49"]) (simp_all add: power_int_minus)
  show ?thesis unfolding intensity_def prod.case p1 p2 p3 s1 s2 ..
qed

lemma glyph_index_near_black: "glyph_index (intensity (10, 10, 10)) = 0"
proof -
  have d: "fdiv (5629499534213119 / 2 ^ 49) 255 = 5651576002974739 / 2 ^ 57"
    unfolding fdiv_def
    by (rule b64_round_cert[where q = 5651576002974739 and e = "-57"]) (simp_all add: power_int_minus)
  have m: "fmul (5651576002974739 / 2 ^ 57) (of_int (int (length ascii_chars) - 1)) = 6358023003346581 / 2 ^ 54"
    unfolding fmul_def
    by (rule b64_round_cert[where q = 6358023003346581 and e = "-54"]) (simp_all add: power_int_minus ascii_chars_def)
  have f: "py_int (6358023003346581 / 2 ^ 54) = 0"
    by (simp add: py_int_def floor_eq_iff)
  show ?thesis unfolding glyph_index_def intensity_near_black d m f ..
qed

section \<open>Monotonicity and totality of the classifier\<close>

lemma py_int_mono: "0 \<le> x \<Longrightarrow> x \<le> y \<Longrightarrow> py_int x \<le> py_int y"
  by (simp add: py_int_def floor_mono)

lemma glyph_index_mono_le:
  assumes "0 \<le> L1" "L1 \<le> L2"
  shows "glyph_index L1 \<le> glyph_index L2"
proof -
  define c :: rat where "c = of_int (int (length ascii_chars) - 1)"
  have c: "0 \<le> c" by (simp add: c_def ascii_chars_def)
  have d0: "0 \<le> fdiv L1 255"
    unfolding fdiv_def using assms(1) by (intro b64_round_nonneg) simp
  have d: "fdiv L1 255 \<le> fdiv L2 255"
    unfolding fdiv_def using assms by (intro b64_round_mono) (simp_all add: divide_right_mono)
  have m0: "0 \<le> fmul (fdiv L1 255) c"
    unfolding fmul_def using d0 c by (intro b64_round_nonneg mult_nonneg_nonneg)
  have m: "fmul (fdiv L1 255) c \<le> fmul (fdiv L2 255) c"
    unfolding fmul_def using d0 d c by (intro b64_round_mono mult_nonneg_nonneg mult_right_mono)
  show ?thesis unfolding glyph_index_def c_def[symmetric] using m0 m by (rule py_int_mono)
qed

lemma glyph_index_nonneg:
  assumes "0 \<le> L"
  shows "0 \<le> glyph_index L"
proof -
  have "0 \<le> fdiv L 255"
    unfolding fdiv_def using assms by (intro b64_round_nonneg) simp
  then have "0 \<le> fmul (fdiv L 255) (of_int (int (length ascii_chars) - 1))"
    unfolding fmul_def by (intro b64_round_nonneg mult_nonneg_nonneg) (simp_all add: ascii_chars_def)
  then show ?thesis by (simp add: glyph_index_def py_int_def)
qed

lemma fmul_literal_mono:
  assumes "0 \<le> k" "m \<le> n"
  shows "0 \<le> fmul (b64_round k) (of_nat m)"
    and "fmul (b64_round k) (of_nat m) \<le> fmul (b64_round k) (of_nat n)"
proof -
  have k: "0 \<le> b64_round k" using assms(1) by (rule b64_round_nonneg)
  have p: "0 \<le> b64_round k * of_nat m" using k by simp
  show "0 \<le> fmul (b64_round k) (of_nat m)"
    unfolding fmul_def using p by (rule b64_round_nonneg)
  have "b64_round k * of_nat m \<le> b64_round k * of_nat n"
    using k assms(2) by (simp add: mult_left_mono)
  with p show "fmul (b64_round k) (of_nat m) \<le> fmul (b64_round k) (of_nat n)"
    unfolding fmul_def by (rule b64_round_mono)
qed

lemma fadd_mono:
  assumes "0 \<le> a" "a \<le> a'" "0 \<le> b" "b \<le> b'"
  shows "0 \<le> fadd a b" and "fadd a b \<le> fadd a' b'"
proof -
  have p: "0 \<le> a + b" using assms by simp
  show "0 \<le> fadd a b" unfolding fadd_def using p by (rule b64_round_nonneg)
  have "a + b \<le> a' + b'" using assms by simp
  with p show "fadd a b \<le> fadd a' b'" unfolding fadd_def by (rule b64_round_mono)
qed

lemma intensity_mono:
  assumes "unat r \<le> unat r'" "unat g \<le> unat g'" "unat b \<le> unat b'"
  shows "intensity (r, g, b) \<le> intensity (r', g', b')"
proof -
  note R = fmul_literal_mono[of "2126 / 10000", OF _ assms(1)]
  note G = fmul_literal_mono[of "7152 / 10000", OF _ assms(2)]
  note B = fmul_literal_mono[of "722 / 10000", OF _ assms(3)]
  have rg: "0 \<le> fadd (fmul (b64_round (2126 / 10000)) (of_nat (unat r)))
                     (fmul (b64_round (7152 / 10000)) (of_nat (unat g)))"
    by (rule fadd_mono(1)[OF R(1) R(2) G(1) G(2)]) simp_all
  have rg': "fadd (fmul (b64_round (2126 / 10000)) (of_nat (unat r)))
                  (fmul (b64_round (7152 / 10000)) (of_nat (unat g)))
           \<le> fadd (fmul (b64_round (2126 / 10000)) (of_nat (unat r')))
                  (fmul (b64_round (7152 / 10000)) (of_nat (unat g')))"
    by (rule fadd_mono(2)[OF R(1) R(2) G(1) G(2)]) simp_all
  show ?thesis unfolding intensity_def prod.case
    by (rule fadd_mono(2)[OF rg rg' B(1) B(2)]) simp_all
qed

lemma intensity_nonneg: "0 \<le> intensity pixel"
proof (cases pixel)
  case (fields r g b)
  note R = fmul_literal_mono[of "2126 / 10000" "unat r", OF _ order_refl]
  note G = fmul_literal_mono[of "7152 / 10000" "unat g", OF _ order_refl]
  note B = fmul_literal_mono[of "722 / 10000" "unat b", OF _ order_refl]
  have rg: "0 \<le> fadd (fmul (b64_round (2126 / 10000)) (of_nat (unat r)))
                     (fmul (b64_round (7152 / 10000)) (of_nat (unat g)))"
    by (rule fadd_mono(1)[OF R(1) R(2) G(1) G(2)]) simp_all
  show ?thesis unfolding fields intensity_def prod.case
    by (rule fadd_mono(1)[OF rg order_refl B(1) B(2)]) simp_all
qed

lemma unat_u8_le: "unat (c :: u8) \<le> unat (255 :: u8)"
  using unsigned_less[of c, where 'a = nat] by simp

lemma intensity_le_white: "intensity pixel \<le> intensity (255, 255, 255)"
proof (cases pixel)
  case (fields r g b)
  show ?thesis unfolding fields by (intro intensity_mono unat_u8_le)
qed

lemma glyph_index_range:
  "0 \<le> glyph_index (intensity pixel)" "glyph_index (intensity pixel) \<le> 8"
proof -
  show "0 \<le> glyph_index (intensity pixel)"
    by (intro glyph_index_nonneg intensity_nonneg)
  have "glyph_index (intensity pixel) \<le> glyph_index (intensity (255, 255, 255))"
    by (intro glyph_index_mono_le intensity_nonneg intensity_le_white)
  then show "glyph_index (intensity pixel) \<le> 8" by (simp only: glyph_index_white)
qed

lemma py_index_ramp:
  "py_index ascii_chars (glyph_index (intensity pixel)) = Inr (fst (cell_of pixel))"
  using glyph_index_range[of pixel] by (simp add: py_index_def cell_of_def ascii_chars_def)

lemma classify_total: "get_ascii_char_and_color pixel = Inr (cell_of pixel)"
  by (simp add: get_ascii_char_and_color_def py_index_ramp) (simp add: cell_of_def)

lemma color_of_bits:
  "bit (color_of (r, g, b)) 0 = (128 < r)"
  "bit (color_of (r, g, b)) (Suc 0) = (128 < g)"
  "bit (color_of (r, g, b)) 2 = (128 < b)"
  "0 \<le> color_of (r, g, b)" "color_of (r, g, b) \<le> 7"
  by (simp_all add: color_of_def Let_def bit_or_iff)

section \<open>The classifier: claims\<close>

text \<open>
  Claim C1. For every pixel \<open>(r, g, b)\<close> of three \<^verbatim>\<open>uint8\<close> channels the classifier returns
  a colour class that is the 3-bit mask with bit 0 set iff \<open>r > 128\<close>, bit 1 set iff
  \<open>g > 128\<close> and bit 2 set iff \<open>b > 128\<close>, the comparisons strict; it lies in \<open>[0, 7]\<close>, and
  the pixel \<open>(128, 128, 128)\<close> has colour class 0.
\<close>

theorem color_class_mask:
  "\<exists>char color. get_ascii_char_and_color (r, g, b) = Inr (char, color)
      \<and> bit color 0 = (128 < r) \<and> bit color 1 = (128 < g) \<and> bit color 2 = (128 < b)
      \<and> 0 \<le> color \<and> color \<le> 7
      \<and> color = (if 128 < r then 1 else 0) + (if 128 < g then 2 else 0)
                  + (if 128 < b then 4 else 0)
      \<and> (\<exists>char. get_ascii_char_and_color (128, 128, 128) = Inr (char, 0))"
proof -
  have sum: "color_of (r, g, b) = (if 128 < r then 1 else 0) + (if 128 < g then 2 else 0)
                  + (if 128 < b then 4 else 0)"
    by (simp add: color_of_def Let_def)
  have gray: "get_ascii_char_and_color (128, 128, 128) = Inr (fst (cell_of (128, 128, 128)), 0)"
    unfolding classify_total by (simp add: cell_of_def color_of_def)
  have "get_ascii_char_and_color (r, g, b) = Inr (fst (cell_of (r, g, b)), color_of (r, g, b))"
    unfolding classify_total by (simp add: cell_of_def)
  with color_of_bits[of r g b] sum gray show ?thesis by (metis One_nat_def)
qed

text \<open>
  Claim C2 says that the glyph index is \<open>floor((L / 255) * 9)\<close> clamped to \<open>[0, 9]\<close> and
  that the pixel \<open>(255, 255, 255)\<close> gets the highest index. Evaluated as the code evaluates
  it, in doubles, the intensity of the white pixel is \<open>255 - 2^-45\<close> (the three rounded
  products sum to \<open>254.99999999999997\<close>), so the code's index for white is 8 and its glyph
  is \<open>@\<close>, where the specification's formula gives 9.
\<close>

theorem white_pixel_glyph_index:
  "glyph_index (intensity (255, 255, 255)) = 8 \<and> spec_glyph_index (255, 255, 255) = 9
   \<and> intensity (255, 255, 255) = 255 - 1 / 2 ^ 45
   \<and> get_ascii_char_and_color (255, 255, 255) = Inr (CHR ''@'', 7)
   \<and> glyph_index (intensity (10, 10, 10)) = 0 \<and> spec_glyph_index (10, 10, 10) = 0"
proof -
  have "spec_glyph_index (255, 255, 255) = 9"
    by (simp add: spec_glyph_index_def)
  moreover have "spec_glyph_index (10, 10, 10) = 0"
    by (simp add: spec_glyph_index_def floor_eq_iff)
  moreover have "intensity (255, 255, 255) = 255 - 1 / 2 ^ 45"
    unfolding intensity_white by simp
  moreover have "get_ascii_char_and_color (255, 255, 255) = Inr (CHR ''@'', 7)"
    unfolding classify_total cell_of_def glyph_index_white
    by (simp add: ascii_chars_def color_of_def)
  ultimately show ?thesis using glyph_index_white glyph_index_near_black by simp
qed

text \<open>
  Claim C7. The glyph index is monotonic non-decreasing in the luminance: for \<open>L1 < L2\<close>
  in \<open>[0, 255]\<close> the index chosen for \<open>L1\<close> is at most the index chosen for \<open>L2\<close>.
\<close>

theorem glyph_index_monotone:
  assumes "0 \<le> L1" "L1 < L2" "L2 \<le> 255"
  shows "glyph_index L1 \<le> glyph_index L2"
  using assms(1,2) by (intro glyph_index_mono_le) simp_all

theorem glyph_index_monotone_witness:
  "(0::rat) \<le> 10 \<and> (10::rat) < 200 \<and> (200::rat) \<le> 255 \<and> glyph_index 10 \<le> glyph_index 200"
  using glyph_index_monotone[of 10 200] by simp

text \<open>
  Claim C9. Indexing the ramp is safe without a clamp: for every pixel the computed index
  lies in \<open>[0, 9]\<close> and the intensity is at most 255, so the index is within the ten
  characters of the ramp and the classifier returns a cell for every pixel.
\<close>

theorem ramp_index_in_bounds:
  "0 \<le> glyph_index (intensity pixel) \<and> glyph_index (intensity pixel) \<le> 9
   \<and> intensity pixel \<le> 255
   \<and> (\<exists>char. py_index ascii_chars (glyph_index (intensity pixel)) = Inr char
          \<and> get_ascii_char_and_color pixel = Inr (char, color_of pixel))"
proof -
  have "intensity pixel \<le> 8972014882652159 / 2 ^ 45"
    using intensity_le_white[of pixel] by (simp only: intensity_white)
  then have "intensity pixel \<le> 255" by simp
  moreover have "get_ascii_char_and_color pixel = Inr (fst (cell_of pixel), color_of pixel)"
    unfolding classify_total by (simp add: cell_of_def)
  ultimately show ?thesis
    using glyph_index_range[of pixel] py_index_ramp[of pixel] by auto
qed

text \<open>
  Claim C10 says that the classifier produces the densest glyph \<open>#\<close> exactly for the pixel
  \<open>(255, 255, 255)\<close>. In the code every pixel has an index of at most 8, the white pixel
  included: no pixel is drawn as \<open>#\<close>, and white is drawn as \<open>@\<close>.
\<close>

theorem densest_glyph_unreachable:
  "glyph_index (intensity pixel) \<le> 8
   \<and> get_ascii_char_and_color pixel \<noteq> Inr (CHR ''#'', color)
   \<and> get_ascii_char_and_color (255, 255, 255) = Inr (CHR ''@'', 7)"
proof -
  define i where "i = nat (glyph_index (intensity pixel))"
  have i: "i < 9" unfolding i_def using glyph_index_range[of pixel] by simp
  have "ascii_chars ! i = take 9 ascii_chars ! i" using i by simp
  also have "\<dots> \<in> set (take 9 ascii_chars)"
    using i by (intro nth_mem) (simp add: ascii_chars_def)
  finally have "ascii_chars ! i \<noteq> CHR ''#''" by (auto simp: ascii_chars_def)
  then have "get_ascii_char_and_color pixel \<noteq> Inr (CHR ''#'', color)"
    unfolding classify_total cell_of_def i_def by simp
  moreover have "get_ascii_char_and_color (255, 255, 255) = Inr (CHR ''@'', 7)"
    unfolding classify_total cell_of_def glyph_index_white
    by (simp add: ascii_chars_def color_of_def)
  ultimately show ?thesis using glyph_index_range(2)[of pixel] by simp
qed

section \<open>The decoder\<close>

lemma length_triples: "length (triples bs) = length bs div 3"
  by (induction bs rule: triples.induct) simp_all

lemma triples_nth:
  "i < length bs div 3 \<Longrightarrow> triples bs ! i = (bs ! (i * 3), bs ! (i * 3 + 1), bs ! (i * 3 + 2))"
proof (induction bs arbitrary: i rule: triples.induct)
  case (1 r g b rest)
  then show ?case by (cases i) simp_all
qed simp_all

lemma length_rows_of: "length (rows_of h w ps) = h"
  by (simp add: rows_of_def)

lemma rows_of_nth: "y < h \<Longrightarrow> rows_of h w ps ! y = take w (drop (y * w) ps)"
  by (simp add: rows_of_def)

lemma row_fits:
  assumes "y < h"
  shows "y * w + w \<le> h * (w::nat)"
proof -
  have "Suc y * w \<le> h * w" using assms by (intro mult_le_mono1) simp
  then show ?thesis by simp
qed

lemma length_rows_of_nth:
  assumes "length ps = h * w" "y < h"
  shows "length (rows_of h w ps ! y) = w"
  using row_fits[OF assms(2), of w] assms by (simp add: rows_of_nth)

lemma rows_of_nth_nth:
  assumes "length ps = h * w" "y < h" "x < w"
  shows "rows_of h w ps ! y ! x = ps ! (y * w + x)"
  using row_fits[OF assms(2), of w] assms by (simp add: rows_of_nth)

lemma rows_of_all_length:
  assumes "length ps = h * w"
  shows "list_all (\<lambda>row. length row = w) (rows_of h w ps)"
  unfolding list_all_length length_rows_of using length_rows_of_nth[OF assms] by simp

lemma sum_length_rows_of:
  assumes "length ps = h * w"
  shows "sum_list (map length (rows_of h w ps)) = h * w"
proof -
  have "map length (rows_of h w ps) = replicate h w"
    by (rule nth_equalityI) (simp_all add: length_rows_of length_rows_of_nth[OF assms])
  then show ?thesis by (simp add: sum_list_replicate)
qed

text \<open>
  Claim C5. Decoding fails (with \<^verbatim>\<open>ValueError\<close>, the specification's \<^verbatim>\<open>MalformedFrame\<close>) for
  every buffer whose length differs from \<open>width * height * 3\<close>; for a buffer of exactly
  that length it succeeds and yields the row-major grid of \<open>height\<close> rows of \<open>width\<close> pixels
  in which pixel \<open>(x, y)\<close> is the triple of the bytes at positions \<open>(y * width + x) * 3\<close>
  and the two that follow.
\<close>

theorem reshape_row_major:
  "(length buf \<noteq> w * h * 3 \<longrightarrow> reshape buf h w = Inl ValueError)
   \<and> (length buf = w * h * 3 \<longrightarrow>
        (\<exists>frame. reshape buf h w = Inr frame \<and> length frame = h
           \<and> (\<forall>y<h. length (frame ! y) = w
                 \<and> (\<forall>x<w. frame ! y ! x =
                       (buf ! ((y * w + x) * 3), buf ! ((y * w + x) * 3 + 1),
                        buf ! ((y * w + x) * 3 + 2))))))"
proof (intro conjI impI)
  assume "length buf \<noteq> w * h * 3"
  then show "reshape buf h w = Inl ValueError"
    by (simp add: reshape_def mult.commute)
next
  assume len: "length buf = w * h * 3"
  then have ps: "length (triples buf) = h * w"
    by (simp add: length_triples mult.commute)
  have "reshape buf h w = Inr (rows_of h w (triples buf))"
    using len by (simp add: reshape_def mult.commute)
  moreover have "length (rows_of h w (triples buf)) = h" by (rule length_rows_of)
  moreover have "length (rows_of h w (triples buf) ! y) = w
      \<and> (\<forall>x<w. rows_of h w (triples buf) ! y ! x =
            (buf ! ((y * w + x) * 3), buf ! ((y * w + x) * 3 + 1),
             buf ! ((y * w + x) * 3 + 2)))" if y: "y < h" for y
  proof (intro conjI allI impI)
    show "length (rows_of h w (triples buf) ! y) = w"
      by (rule length_rows_of_nth[OF ps y])
    fix x assume x: "x < w"
    have "y * w + x < y * w + w" using x by simp
    also have "\<dots> \<le> h * w" by (rule row_fits[OF y])
    finally have "y * w + x < length buf div 3" using len by (simp add: mult.commute)
    then show "rows_of h w (triples buf) ! y ! x =
            (buf ! ((y * w + x) * 3), buf ! ((y * w + x) * 3 + 1),
             buf ! ((y * w + x) * 3 + 2))"
      unfolding rows_of_nth_nth[OF ps y x] by (rule triples_nth)
  qed
  ultimately show "\<exists>frame. reshape buf h w = Inr frame \<and> length frame = h
           \<and> (\<forall>y<h. length (frame ! y) = w
                 \<and> (\<forall>x<w. frame ! y ! x =
                       (buf ! ((y * w + x) * 3), buf ! ((y * w + x) * 3 + 1),
                        buf ! ((y * w + x) * 3 + 2))))"
    by blast
qed

theorem reshape_row_major_witness:
  "length [1, 2, 3, 4, 5, 6, 7, 8, 9, 10, 11, 12 :: u8] = 2 * 2 * 3
   \<and> (\<exists>frame. reshape [1, 2, 3, 4, 5, 6, 7, 8, 9, 10, 11, 12] 2 2 = Inr frame
         \<and> frame ! 1 ! 0 = (7, 8, 9))
   \<and> length [1, 2, 3, 4 :: u8] \<noteq> 2 * 2 * 3
   \<and> reshape [1, 2, 3, 4] 2 2 = Inl ValueError"
proof -
  have a: "length [1, 2, 3, 4, 5, 6, 7, 8, 9, 10, 11, 12 :: u8] = 2 * 2 * 3" by simp
  have b: "length [1, 2, 3, 4 :: u8] \<noteq> 2 * 2 * 3" by simp
  from reshape_row_major[of "[1, 2, 3, 4, 5, 6, 7, 8, 9, 10, 11, 12]" 2 2] a
  obtain frame where f: "reshape [1, 2, 3, 4, 5, 6, 7, 8, 9, 10, 11, 12 :: u8] 2 2 = Inr frame"
    and n: "\<forall>y<2. length (frame ! y) = 2
                 \<and> (\<forall>x<2. frame ! y ! x =
                       ([1, 2, 3, 4, 5, 6, 7, 8, 9, 10, 11, 12] ! ((y * 2 + x) * 3),
                        [1, 2, 3, 4, 5, 6, 7, 8, 9, 10, 11, 12] ! ((y * 2 + x) * 3 + 1),
                        [1, 2, 3, 4, 5, 6, 7, 8, 9, 10, 11, 12] ! ((y * 2 + x) * 3 + 2)))"
    by blast
  from n have "frame ! 1 ! 0 = (7, 8, 9)" by simp
  with f a b reshape_row_major[of "[1, 2, 3, 4]" 2 2] show ?thesis by simp
qed

section \<open>Drawing a frame\<close>

lemma render_row_Cons:
  "render_row y x (pixel # row) st =
     render_row y (Suc x) row
       (put_char x y (fst (cell_of pixel)) (set_color_ansi (snd (cell_of pixel)) st))"
  by (simp add: classify_total split: prod.split)

lemma draw_events:
  "events (put_char x y char (set_color_ansi color st)) = events st @ [SetColor color, PutChar x y char]"
  by (simp add: put_char_def set_color_ansi_def)

lemma draw_cells:
  "cells (put_char x y char (set_color_ansi color st)) =
     (if y < length (cells st) \<and> x < length (cells st ! y)
      then (cells st)[y := (cells st ! y)[x := (char, color)]] else cells st)"
  by (simp add: put_char_def set_color_ansi_def)

lemma render_row_fst: "fst (render_row y x row st) = None"
  by (induction row arbitrary: x st) (simp_all add: render_row_Cons del: render_row.simps(2))

lemma render_row_events:
  "events (snd (render_row y x row st)) = events st @ row_events y x row"
  by (induction row arbitrary: x st)
     (simp_all add: render_row_Cons draw_events del: render_row.simps(2))

lemma render_row_cells:
  assumes "y < length (cells st)" "x + length row \<le> length (cells st ! y)"
  shows "cells (snd (render_row y x row st)) =
           (cells st)[y := take x (cells st ! y) @ map cell_of row
                            @ drop (x + length row) (cells st ! y)]"
  using assms
proof (induction row arbitrary: x st)
  case Nil
  then show ?case by simp
next
  case (Cons pixel row)
  define st1 where
    "st1 = put_char x y (fst (cell_of pixel)) (set_color_ansi (snd (cell_of pixel)) st)"
  define r where "r = cells st ! y"
  have x: "x < length r" using Cons.prems(2) by (simp add: r_def)
  have c1: "cells st1 = (cells st)[y := r[x := cell_of pixel]]"
    unfolding st1_def draw_cells using Cons.prems(1) x by (simp add: r_def)
  have r1: "cells st1 ! y = r[x := cell_of pixel]"
    unfolding c1 using Cons.prems(1) by simp
  have "cells (snd (render_row y (Suc x) row st1)) =
          (cells st1)[y := take (Suc x) (cells st1 ! y) @ map cell_of row
                            @ drop (Suc x + length row) (cells st1 ! y)]"
    by (rule Cons.IH) (use Cons.prems r1 c1 in \<open>simp_all add: r_def\<close>)
  also have "\<dots> = (cells st)[y := take x r @ map cell_of (pixel # row)
                            @ drop (x + length (pixel # row)) r]"
    using x Cons.prems(1) by (simp add: c1 take_Suc_conv_app_nth)
  finally show ?case
    unfolding render_row_Cons st1_def[symmetric] r_def .
qed

lemma render_rows_fst: "fst (render_rows y frame st) = None"
proof (induction frame arbitrary: y st)
  case Nil
  then show ?case by simp
next
  case (Cons row frame)
  obtain st' where "render_row y 0 row st = (None, st')"
    using render_row_fst[of y 0 row st] by (cases "render_row y 0 row st") simp
  then show ?case using Cons.IH by simp
qed

lemma render_rows_Cons:
  "render_rows y (row # frame) st = render_rows (Suc y) frame (snd (render_row y 0 row st))"
  using render_row_fst[of y 0 row st] by (cases "render_row y 0 row st") simp

lemma render_rows_events:
  "events (snd (render_rows y frame st)) = events st @ frame_events y frame"
  by (induction frame arbitrary: y st)
     (simp_all add: render_rows_Cons render_row_events del: render_rows.simps(2))

lemma render_rows_cells:
  assumes "y + length frame \<le> length (cells st)"
    and "list_all (\<lambda>r. length r = w) (cells st)"
    and "list_all (\<lambda>row. length row = w) frame"
  shows "cells (snd (render_rows y frame st)) =
           take y (cells st) @ map (map cell_of) frame @ drop (y + length frame) (cells st)"
  using assms
proof (induction frame arbitrary: y st)
  case Nil
  then show ?case by simp
next
  case (Cons row frame)
  define st1 where "st1 = snd (render_row y 0 row st)"
  have y: "y < length (cells st)" using Cons.prems(1) by simp
  have row: "length row = w" using Cons.prems(3) by simp
  have r: "length (cells st ! y) = w"
    using Cons.prems(2) y by (simp add: list_all_length)
  have c1: "cells st1 = (cells st)[y := map cell_of row]"
    unfolding st1_def using render_row_cells[of y st 0 row] y row r by simp
  have ok1: "list_all (\<lambda>r. length r = w) (cells st1)"
    unfolding c1 using Cons.prems(2) row y
    by (auto simp: list_all_length nth_list_update)
  have "cells (snd (render_rows (Suc y) frame st1)) =
          take (Suc y) (cells st1) @ map (map cell_of) frame
            @ drop (Suc y + length frame) (cells st1)"
    by (rule Cons.IH) (use Cons.prems ok1 c1 in simp_all)
  also have "\<dots> = take y (cells st) @ map (map cell_of) (row # frame)
            @ drop (y + length (row # frame)) (cells st)"
    unfolding c1 using y by (simp add: take_Suc_conv_app_nth)
  finally show ?case unfolding render_rows_Cons st1_def[symmetric] .
qed

lemma log_read_simps:
  "cells (log_read c st) = cells st" "events (log_read c st) = events st @ [Read c]"
  by (simp_all add: log_read_def)

lemma refresh_simps:
  "cells (refresh st) = cells st" "events (refresh st) = events st @ [Refresh (cells st)]"
  by (simp_all add: refresh_def)

lemma show_frame_events:
  "events (show_frame w h c st) =
     events st @ Read c # frame_events 0 (rows_of h w (triples c))
       @ [Refresh (cells (show_frame w h c st))]"
  by (simp add: show_frame_def refresh_simps render_rows_events log_read_simps)

lemma show_frame_cells:
  assumes "canvas_ok w h st" "length c = w * h * 3"
  shows "cells (show_frame w h c st) = map (map cell_of) (rows_of h w (triples c))"
proof -
  have ps: "length (triples c) = h * w"
    using assms(2) by (simp add: length_triples mult.commute)
  have "cells (snd (render_rows 0 (rows_of h w (triples c)) (log_read c st))) =
          take 0 (cells (log_read c st)) @ map (map cell_of) (rows_of h w (triples c))
            @ drop (0 + length (rows_of h w (triples c))) (cells (log_read c st))"
    by (rule render_rows_cells[where w = w])
       (use assms(1) rows_of_all_length[OF ps] in
         \<open>simp_all add: canvas_ok_def log_read_simps length_rows_of\<close>)
  then show ?thesis
    using assms(1) by (simp add: show_frame_def refresh_simps log_read_simps canvas_ok_def length_rows_of)
qed

lemma show_frame_canvas_ok:
  assumes "canvas_ok w h st" "length c = w * h * 3"
  shows "canvas_ok w h (show_frame w h c st)"
proof -
  have ps: "length (triples c) = h * w"
    using assms(2) by (simp add: length_triples mult.commute)
  show ?thesis
    unfolding canvas_ok_def show_frame_cells[OF assms]
    using rows_of_all_length[OF ps] by (simp add: length_rows_of list_all_length)
qed

lemma show_frame_classified:
  "classified frame (map (map cell_of) frame)"
  unfolding classified_def
  by (simp add: list_all2_map2 list_all2_same classify_total)

lemma pump_full_chunk:
  assumes "stdout_read (w * h * 3) src = (c, src')" "length c = w * h * 3" "c \<noteq> []"
  shows "pump (Suc fuel) w h src st = pump fuel w h src' (show_frame w h c st)"
proof -
  have r: "reshape c h w = Inr (rows_of h w (triples c))"
    using assms(2) by (simp add: reshape_def mult.commute)
  obtain st2 where st2: "render_rows 0 (rows_of h w (triples c)) (log_read c st) = (None, st2)"
    using render_rows_fst[of 0 "rows_of h w (triples c)" "log_read c st"]
    by (cases "render_rows 0 (rows_of h w (triples c)) (log_read c st)") simp
  show ?thesis
    using assms(1,3) r st2 by (simp add: show_frame_def)
qed

lemma pump_empty_read:
  assumes "stdout_read (w * h * 3) src = ([], src')"
  shows "pump (Suc fuel) w h src st = (Some Drained, log_read [] st)"
  using assms by simp

lemma pump_short_read:
  assumes "stdout_read (w * h * 3) src = (c, src')" "length c \<noteq> w * h * 3" "c \<noteq> []"
  shows "pump (Suc fuel) w h src st = (Some (Failed ValueError), log_read c st)"
  using assms by (simp add: reshape_def mult.commute)

section \<open>Runs of the loop\<close>

lemma deliveries_append: "deliveries (es @ es') = deliveries es @ deliveries es'"
  by (induction es rule: deliveries.induct) simp_all

lemma deliveries_row_events: "deliveries (row_events y x row) = []"
  by (induction row arbitrary: x) simp_all

lemma deliveries_frame_events: "deliveries (frame_events y frame) = []"
  by (induction frame arbitrary: y) (simp_all add: deliveries_append deliveries_row_events)

lemma ordered_append:
  "ordered n s (es @ es') = (case ordered n s es of None \<Rightarrow> None | Some s' \<Rightarrow> ordered n s' es')"
  by (induction es arbitrary: s) (simp_all split: option.split)

lemma ordered_row_events:
  "ordered n (InFlight j) (row_events y x row) = Some (InFlight (j + length row))"
  by (induction row arbitrary: x j) simp_all

lemma ordered_frame_events:
  "ordered n (InFlight j) (frame_events y frame) = Some (InFlight (j + sum_list (map length frame)))"
  by (induction frame arbitrary: y j) (simp_all add: ordered_append ordered_row_events add.assoc)

lemma show_frame_deliveries:
  "deliveries (events (show_frame w h c st)) =
     deliveries (events st) @ [cells (show_frame w h c st)]"
  by (subst show_frame_events) (simp add: deliveries_append deliveries_frame_events)

lemma show_frame_ordered:
  assumes "ordered (w * h) Idle (events st) = Some Idle" "length c = w * h * 3"
  shows "ordered (w * h) Idle (events (show_frame w h c st)) = Some Idle"
proof -
  have ps: "length (triples c) = h * w"
    using assms(2) by (simp add: length_triples mult.commute)
  have n: "sum_list (map length (rows_of h w (triples c))) = w * h"
    unfolding sum_length_rows_of[OF ps] by (rule mult.commute)
  show ?thesis
    by (subst show_frame_events)
       (simp add: ordered_append assms(1) ordered_frame_events n)
qed

lemma closing_read_chunk:
  assumes "length c = n"
  shows "stdout_read n (Closing (c @ rest)) = (c, Closing rest)"
  using assms by simp

lemma pump_chunks:
  assumes "list_all (\<lambda>c. length c = w * h * 3) chunks" "0 < w * h * 3"
  shows "pump (length chunks + fuel) w h (Closing (concat chunks @ rest)) st =
           pump fuel w h (Closing rest) (fold (show_frame w h) chunks st)"
  using assms(1)
proof (induction chunks arbitrary: st)
  case Nil
  then show ?case by simp
next
  case (Cons c chunks)
  have c: "length c = w * h * 3" "c \<noteq> []" using Cons.prems assms(2) by auto
  have "pump (length (c # chunks) + fuel) w h (Closing (concat (c # chunks) @ rest)) st =
          pump (Suc (length chunks + fuel)) w h (Closing (c @ concat chunks @ rest)) st"
    by (simp del: pump.simps)
  also have "\<dots> =
          pump (length chunks + fuel) w h (Closing (concat chunks @ rest)) (show_frame w h c st)"
    by (rule pump_full_chunk[OF closing_read_chunk[OF c(1)] c])
  also have "\<dots> = pump fuel w h (Closing rest) (fold (show_frame w h) chunks (show_frame w h c st))"
    by (rule Cons.IH) (use Cons.prems in simp)
  finally show ?case by simp
qed

lemma fold_show_frame_deliveries_length:
  "length (deliveries (events (fold (show_frame w h) chunks st))) =
     length (deliveries (events st)) + length chunks"
  by (induction chunks arbitrary: st) (simp_all add: show_frame_deliveries)

lemma fold_show_frame_canvas_ok:
  assumes "list_all (\<lambda>c. length c = w * h * 3) chunks" "canvas_ok w h st"
  shows "canvas_ok w h (fold (show_frame w h) chunks st)"
  using assms by (induction chunks arbitrary: st) (simp_all add: show_frame_canvas_ok)

lemma fold_show_frame_deliveries:
  assumes "list_all (\<lambda>c. length c = w * h * 3) chunks" "canvas_ok w h st"
  shows "deliveries (events (fold (show_frame w h) chunks st)) =
     deliveries (events st) @ map (\<lambda>c. map (map cell_of) (rows_of h w (triples c))) chunks"
  using assms
  by (induction chunks arbitrary: st)
     (simp_all add: show_frame_deliveries show_frame_canvas_ok show_frame_cells)

lemma pump_ordered:
  assumes "ordered (w * h) Idle (events st) = Some Idle"
  shows "ordered (w * h) Idle (events (snd (pump fuel w h src st))) =
           Some (case fst (pump fuel w h src st) of None \<Rightarrow> Idle | Some out \<Rightarrow> InFlight 0)"
  using assms
proof (induction fuel arbitrary: src st)
  case 0
  then show ?case by simp
next
  case (Suc fuel)
  obtain c src' where rd: "stdout_read (w * h * 3) src = (c, src')"
    by (cases "stdout_read (w * h * 3) src")
  have stop: "ordered (w * h) Idle (events (log_read c st)) = Some (InFlight 0)"
    using Suc.prems by (simp add: log_read_simps ordered_append)
  show ?case
  proof (cases "c = []")
    case True
    then show ?thesis using pump_empty_read[of w h src src' fuel st] rd stop by simp
  next
    case False
    show ?thesis
    proof (cases "length c = w * h * 3")
      case True
      show ?thesis
        unfolding pump_full_chunk[OF rd True False]
        by (rule Suc.IH[OF show_frame_ordered[OF Suc.prems True]])
    next
      case len: False
      show ?thesis
        unfolding pump_short_read[OF rd len False] using stop by simp
    qed
  qed
qed

section \<open>The loop: claims\<close>

lemma canvas_ok_Canvas: "canvas_ok w h (Canvas w h)"
  by (simp add: canvas_ok_def Canvas_def list_all_length)

lemma concat_empty_chunks:
  "list_all (\<lambda>c. length c = 0) chunks \<Longrightarrow> concat chunks = []"
  by (induction chunks) simp_all

text \<open>
  Claim C3. A source that closes after a final chunk that is not empty but shorter than
  \<open>width * height * 3\<close> bytes makes the run fail with \<^verbatim>\<open>ValueError\<close> (the specification's
  \<^verbatim>\<open>MalformedFrame\<close>), not drain: after the full frames before it have been shown, the
  last call of the run is the read of the short chunk, and nothing is shown for it.
\<close>

theorem short_final_chunk_fails:
  assumes "list_all (\<lambda>c. length c = w * h * 3) chunks"
    and "short \<noteq> []" "length short < w * h * 3" "length chunks < fuel"
  shows "fst (pump fuel w h (Closing (concat chunks @ short)) st) = Some (Failed ValueError)
     \<and> events (snd (pump fuel w h (Closing (concat chunks @ short)) st)) =
          events (fold (show_frame w h) chunks st) @ [Read short]
     \<and> length (deliveries (events (snd (pump fuel w h (Closing (concat chunks @ short)) st)))) =
          length (deliveries (events st)) + length chunks"
proof -
  obtain f where fuel: "fuel = length chunks + Suc f"
    using assms(4) less_iff_Suc_add by auto
  have n: "0 < w * h * 3" using assms(3) by (metis less_nat_zero_code neq0_conv)
  have rd: "stdout_read (w * h * 3) (Closing short) = (short, Closing [])"
    using assms(3) by simp
  have len: "length short \<noteq> w * h * 3" using assms(3) by simp
  have "pump fuel w h (Closing (concat chunks @ short)) st =
          pump (Suc f) w h (Closing short) (fold (show_frame w h) chunks st)"
    unfolding fuel by (rule pump_chunks[OF assms(1) n])
  also have "\<dots> = (Some (Failed ValueError), log_read short (fold (show_frame w h) chunks st))"
    by (rule pump_short_read[OF rd len assms(2)])
  finally show ?thesis
    by (simp add: log_read_simps deliveries_append fold_show_frame_deliveries_length)
qed

theorem short_final_chunk_fails_witness:
  "fst (pump 2 1 1 (Closing (concat [[1, 2, 3]] @ [4])) (Canvas 1 1)) = Some (Failed ValueError)
     \<and> events (snd (pump 2 1 1 (Closing (concat [[1, 2, 3]] @ [4])) (Canvas 1 1))) =
          events (fold (show_frame 1 1) [[1, 2, 3]] (Canvas 1 1)) @ [Read [4]]
     \<and> length (deliveries (events (snd (pump 2 1 1 (Closing (concat [[1, 2, 3]] @ [4])) (Canvas 1 1))))) =
          length (deliveries (events (Canvas 1 1))) + length [[1, 2, 3 :: u8]]"
proof -
  have a: "list_all (\<lambda>c. length c = 1 * 1 * 3) [[1, 2, 3 :: u8]]" by simp
  have b: "[4 :: u8] \<noteq> []" "length [4 :: u8] < 1 * 1 * 3" "length [[1, 2, 3 :: u8]] < 2"
    by simp_all
  show ?thesis by (rule short_final_chunk_fails[OF a b])
qed

text \<open>
  Claim C4, amended. The claim lets every short read at the end of the stream drain the
  loop; the code breaks out of the loop only on an empty read (line 83). What holds: a
  source that closes on a frame boundary, so that the read after the last full frame
  returns no bytes, ends the run in \<open>Drained\<close>, and the empty read is the last call of
  the run.
\<close>

theorem empty_read_drains:
  assumes "list_all (\<lambda>c. length c = w * h * 3) chunks" "length chunks < fuel"
  shows "fst (pump fuel w h (Closing (concat chunks)) st) = Some Drained
     \<and> last (events (snd (pump fuel w h (Closing (concat chunks)) st))) = Read []"
proof (cases "w * h * 3 = 0")
  case True
  obtain f where fuel: "fuel = Suc f"
    using assms(2) by (cases fuel) simp_all
  have cc: "concat chunks = []"
    using assms(1) unfolding True by (rule concat_empty_chunks)
  have rd: "stdout_read (w * h * 3) (Closing (concat chunks)) = ([], Closing [])"
    unfolding cc by simp
  show ?thesis
    unfolding fuel pump_empty_read[OF rd] by (simp add: log_read_simps)
next
  case False
  then have n: "0 < w * h * 3" by (rule neq0_conv[THEN iffD1])
  obtain f where fuel: "fuel = length chunks + Suc f"
    using assms(2) less_iff_Suc_add by auto
  have rd: "stdout_read (w * h * 3) (Closing []) = ([], Closing [])" by simp
  have "pump fuel w h (Closing (concat chunks @ [])) st =
          pump (Suc f) w h (Closing []) (fold (show_frame w h) chunks st)"
    unfolding fuel by (rule pump_chunks[OF assms(1) n])
  also have "\<dots> = (Some Drained, log_read [] (fold (show_frame w h) chunks st))"
    by (rule pump_empty_read[OF rd])
  finally show ?thesis by (simp add: log_read_simps)
qed

theorem empty_read_drains_witness:
  "fst (pump 2 1 1 (Closing (concat [[1, 2, 3]])) (Canvas 1 1)) = Some Drained
     \<and> last (events (snd (pump 2 1 1 (Closing (concat [[1, 2, 3]])) (Canvas 1 1)))) = Read []"
proof -
  have a: "list_all (\<lambda>c. length c = 1 * 1 * 3) [[1, 2, 3 :: u8]]" by simp
  have b: "length [[1, 2, 3 :: u8]] < 2" by simp
  show ?thesis by (rule empty_read_drains[OF a b])
qed

text \<open>
  The run that refutes the claim as the specification words it: on a canvas of one cell
  the loop asks for three bytes, the source closes after one, the read returns that one
  byte, and the run fails with \<^verbatim>\<open>ValueError\<close> instead of draining.
\<close>

theorem short_read_not_drained:
  "stdout_read (1 * 1 * 3) (Closing [7]) = ([7], Closing [])
   \<and> length [7 :: u8] < 1 * 1 * 3
   \<and> fst (pump 1 1 1 (Closing [7]) (Canvas 1 1)) = Some (Failed ValueError)
   \<and> fst (pump 1 1 1 (Closing [7]) (Canvas 1 1)) \<noteq> Some Drained"
  by (simp add: reshape_def)

text \<open>
  Claim C6, amended. The claim speaks of every geometry; on a canvas without cells a
  frame has no bytes, the first read returns nothing and the loop breaks (line 83)
  before anything is shown. What holds: on a canvas of at least one cell (width and
  height positive), a source that yields exactly three full frames and then closes makes
  the loop show exactly three frames, in the order of the bytes, each the
  element-by-element classification of its decoded chunk, and then end in \<open>Drained\<close>;
  four units of fuel are enough.
\<close>

theorem three_frames_round_trip:
  assumes "0 < w" "0 < h"
    and "length c1 = w * h * 3" "length c2 = w * h * 3" "length c3 = w * h * 3"
    and "3 < fuel"
  shows "\<exists>st' f1 f2 f3 g1 g2 g3.
           pump fuel w h (Closing (c1 @ c2 @ c3)) (Canvas w h) = (Some Drained, st')
           \<and> deliveries (events st') = [g1, g2, g3]
           \<and> reshape c1 h w = Inr f1 \<and> classified f1 g1
           \<and> reshape c2 h w = Inr f2 \<and> classified f2 g2
           \<and> reshape c3 h w = Inr f3 \<and> classified f3 g3"
proof -
  define grid where "grid c = map (map cell_of) (rows_of h w (triples c))" for c
  define st1 where "st1 = fold (show_frame w h) [c1, c2, c3] (Canvas w h)"
  have n: "0 < w * h * 3" using assms(1,2) by simp
  have chunks: "list_all (\<lambda>c. length c = w * h * 3) [c1, c2, c3]"
    using assms(3-5) by simp
  obtain f where fuel: "fuel = length [c1, c2, c3] + Suc f"
    using assms(6) less_iff_Suc_add[of 3 fuel] by auto
  have rd: "stdout_read (w * h * 3) (Closing []) = ([], Closing [])" by simp
  have "pump fuel w h (Closing (concat [c1, c2, c3] @ [])) (Canvas w h) =
          pump (Suc f) w h (Closing []) st1"
    unfolding fuel st1_def by (rule pump_chunks[OF chunks n])
  also have "\<dots> = (Some Drained, log_read [] st1)"
    by (rule pump_empty_read[OF rd])
  finally have run: "pump fuel w h (Closing (c1 @ c2 @ c3)) (Canvas w h) =
      (Some Drained, log_read [] st1)" by simp
  have "deliveries (events st1) =
          deliveries (events (Canvas w h)) @ map grid [c1, c2, c3]"
    unfolding st1_def grid_def
    by (rule fold_show_frame_deliveries[OF chunks canvas_ok_Canvas])
  then have shown: "deliveries (events (log_read [] st1)) = [grid c1, grid c2, grid c3]"
    by (simp add: log_read_simps deliveries_append Canvas_def)
  have dec: "reshape c h w = Inr (rows_of h w (triples c))" if "length c = w * h * 3" for c
    using that by (simp add: reshape_def mult.commute)
  have cls: "classified (rows_of h w (triples c)) (grid c)" for c
    unfolding grid_def by (rule show_frame_classified)
  show ?thesis
    using run shown dec[OF assms(3)] dec[OF assms(4)] dec[OF assms(5)] cls by blast
qed

theorem three_frames_round_trip_witness:
  "\<exists>st' f1 f2 f3 g1 g2 g3.
           pump 4 1 1 (Closing ([1, 2, 3] @ [4, 5, 6] @ [7, 8, 9])) (Canvas 1 1) = (Some Drained, st')
           \<and> deliveries (events st') = [g1, g2, g3]
           \<and> reshape [1, 2, 3] 1 1 = Inr f1 \<and> classified f1 g1
           \<and> reshape [4, 5, 6] 1 1 = Inr f2 \<and> classified f2 g2
           \<and> reshape [7, 8, 9] 1 1 = Inr f3 \<and> classified f3 g3"
proof -
  have a: "(0::nat) < 1" "(0::nat) < 1" by simp_all
  have b: "length [1, 2, 3 :: u8] = 1 * 1 * 3" "length [4, 5, 6 :: u8] = 1 * 1 * 3"
    "length [7, 8, 9 :: u8] = 1 * 1 * 3" "(3::nat) < 4" by simp_all
  show ?thesis by (rule three_frames_round_trip[OF a b])
qed

text \<open>
  The run that refutes the claim as the specification words it: on a canvas of width 0
  and height 1 a full frame is the empty chunk, so three full frames followed by the end
  of the stream are an empty source. The loop asks for 0 bytes, the read returns nothing,
  and the run drains with no frame shown, where the claim promises three.
\<close>

theorem zero_width_shows_nothing:
  "length ([] :: u8 list) = 0 * 1 * 3
   \<and> pump 4 0 1 (Closing ([] @ [] @ [])) (Canvas 0 1) =
        (Some Drained, log_read [] (Canvas 0 1))
   \<and> deliveries (events (snd (pump 4 0 1 (Closing ([] @ [] @ [])) (Canvas 0 1)))) = []
   \<and> length (deliveries (events (snd (pump 4 0 1 (Closing ([] @ [] @ [])) (Canvas 0 1)))))
        \<noteq> 3"
proof -
  have rd: "stdout_read (0 * 1 * 3) (Closing []) = ([], Closing [])" by simp
  have four: "(4::nat) = Suc 3" by simp
  have run: "pump 4 0 1 (Closing ([] @ [] @ [])) (Canvas 0 1) =
      (Some Drained, log_read [] (Canvas 0 1))"
    unfolding four append_Nil by (rule pump_empty_read[OF rd])
  show ?thesis unfolding run by (simp add: log_read_simps Canvas_def)
qed

text \<open>
  Claim C8. In every run, frame \<open>N\<close> is fully delivered before any byte of frame \<open>N + 1\<close>
  is read, and at most one frame is in flight. Whatever the source (closing or endless)
  and however long the loop has run, the log of calls is accepted by the automaton
  \<open>ordered\<close>: a read happens only while no frame is in flight, every cell written belongs
  to the one frame in flight, and that frame is refreshed with all its
  \<open>width * height\<close> cells written before the next read. The automaton ends idle while the
  loop is still running, and with a frame just read once the loop has ended.
\<close>

theorem one_frame_in_flight:
  "ordered (w * h) Idle (events (snd (pump fuel w h src (Canvas w h)))) =
     Some (case fst (pump fuel w h src (Canvas w h)) of None \<Rightarrow> Idle | Some out \<Rightarrow> InFlight 0)"
  by (rule pump_ordered) (simp add: Canvas_def)

end
